theory Spec2Isabelle
  imports Main
begin

section \<open>Data model of \<^verbatim>\<open>src/App.tsx\<close>\<close>

text \<open>
  \<^verbatim>\<open>type User = { login: string }\<close> and
  \<^verbatim>\<open>type Repo = { id; name; description; stargazers_count; html_url }\<close>.
  A \<^typ>\<open>string\<close> is a list of characters; a character stands for one code unit of the
  JavaScript string below 256. The field names \<^verbatim>\<open>id\<close>, \<^verbatim>\<open>name\<close> and
  \<^verbatim>\<open>description\<close> carry the suffix \<^verbatim>\<open>_repo\<close>.
\<close>

record user =
  login :: string

record repo =
  id_repo :: int
  name_repo :: string
  description_repo :: "string option"
  stargazers_count :: int
  html_url :: string

text \<open>
  \<^verbatim>\<open>res.data\<close> of \<^verbatim>\<open>GET /search/users\<close>: an object whose fields
  \<^verbatim>\<open>items\<close> and \<^verbatim>\<open>total_count\<close> may be absent (\<^verbatim>\<open>undefined\<close> or
  \<^verbatim>\<open>null\<close>), which is \<^const>\<open>None\<close> here.
\<close>

record search_data =
  items :: "user list option"
  total_count :: "int option"

text \<open>
  An \<^verbatim>\<open>async\<close> function is suspended at its \<^verbatim>\<open>await axios.get(...)\<close>; what it
  keeps for its continuation is recorded as a pending request: \<^verbatim>\<open>searchUsers\<close> keeps
  \<^verbatim>\<open>start\<close>, \<^verbatim>\<open>loadRepos\<close> keeps \<^verbatim>\<open>userLogin\<close>. The type \<^typ>\<open>'t\<close> is
  the type of the values of \<^verbatim>\<open>performance.now()\<close>; the only operation the code applies
  to them is the subtraction of line 60.
\<close>

datatype 't pending = SearchPending 't | ReposPending string

text \<open>
  The \<^verbatim>\<open>useState\<close> cells of \<^verbatim>\<open>App\<close> (lines 37 to 46), the value returned by
  \<^verbatim>\<open>useDebounce(username, 500)\<close> (line 38), the requests in flight and the URLs that
  \<^verbatim>\<open>axios.get\<close> has been called with, oldest first.
\<close>

record 't app =
  username :: string
  debouncedUsername :: string
  users :: "user list"
  reposMap :: "string \<rightharpoonup> repo list"
  totalCount :: int
  searchTime :: "'t option"
  loadingUser :: bool
  loadingRepos :: "string option"
  error :: string
  pending :: "'t pending list"
  calls :: "string list"

definition init :: "'t app" where
  "init = \<lparr>username = [], debouncedUsername = [], users = [], reposMap = Map.empty,
     totalCount = 0, searchTime = None, loadingUser = False, loadingRepos = None,
     error = [], pending = [], calls = []\<rparr>"

section \<open>The operations of \<^verbatim>\<open>App\<close>\<close>

text \<open>\<^verbatim>\<open>lib/utils.ts\<close>: \<^verbatim>\<open>baseUrl = import.meta.env.DEV ? "/api" : "https://api.github.com"\<close>.\<close>

definition baseUrl :: "bool \<Rightarrow> string" where
  "baseUrl DEV = (if DEV then ''/api'' else ''https://api.github.com'')"

definition search_url :: "bool \<Rightarrow> string \<Rightarrow> string" where
  "search_url DEV query = baseUrl DEV @ ''/search/users?q='' @ query @ ''&per_page=10''"

definition repos_url :: "bool \<Rightarrow> string \<Rightarrow> string" where
  "repos_url DEV userLogin = baseUrl DEV @ ''/users/'' @ userLogin @ ''/repos''"

text \<open>
  \<^verbatim>\<open>searchUsers\<close>, lines 49 to 57: up to the \<^verbatim>\<open>await\<close>. \<^verbatim>\<open>!query\<close> holds of the
  empty string only. The argument \<open>now\<close> is the value of \<^verbatim>\<open>performance.now()\<close> at
  line 50.
\<close>

definition searchUsers :: "bool \<Rightarrow> string \<Rightarrow> 't \<Rightarrow> 't app \<Rightarrow> 't app" where
  "searchUsers DEV query now s =
     (if query = [] then s
      else s\<lparr>loadingUser := True, error := [], users := [], reposMap := Map.empty,
             searchTime := None,
             pending := pending s @ [SearchPending now],
             calls := calls s @ [search_url DEV query]\<rparr>)"

text \<open>
  Lines 58 to 60 and 64: the request resolved with \<open>res\<close>; \<open>now\<close> is the value of
  \<^verbatim>\<open>performance.now()\<close> at line 60. \<^verbatim>\<open>items || []\<close> and \<^verbatim>\<open>total_count ?? 0\<close>.
\<close>

definition searchUsers_then :: "'t::minus \<Rightarrow> search_data \<Rightarrow> 't \<Rightarrow> 't app \<Rightarrow> 't app" where
  "searchUsers_then start res now s =
     s\<lparr>users := (case items res of Some xs \<Rightarrow> xs | None \<Rightarrow> []),
       totalCount := (case total_count res of Some n \<Rightarrow> n | None \<Rightarrow> 0),
       searchTime := Some (now - start),
       loadingUser := False\<rparr>"

text \<open>Lines 62 and 64: the request rejected.\<close>

definition searchUsers_catch :: "'t app \<Rightarrow> 't app" where
  "searchUsers_catch s = s\<lparr>error := ''Failed to fetch users.'', loadingUser := False\<rparr>"

text \<open>
  \<^verbatim>\<open>reposMap\<close> is a plain object, so \<^verbatim>\<open>reposMap[userLogin]\<close> of line 69 finds an own
  property or, failing that, a property inherited from \<^verbatim>\<open>Object.prototype\<close>. Every
  stored value is an array and every inherited value is a function or an object: all are
  truthy.
\<close>

definition objectPrototypeKeys :: "string list" where
  "objectPrototypeKeys =
     [''constructor'', ''hasOwnProperty'', ''isPrototypeOf'', ''propertyIsEnumerable'',
      ''toLocaleString'', ''toString'', ''valueOf'', ''__proto__'',
      ''__defineGetter__'', ''__defineSetter__'', ''__lookupGetter__'', ''__lookupSetter__'']"

definition truthy_at :: "(string \<rightharpoonup> repo list) \<Rightarrow> string \<Rightarrow> bool" where
  "truthy_at m k \<longleftrightarrow> m k \<noteq> None \<or> k \<in> set objectPrototypeKeys"

text \<open>\<^verbatim>\<open>loadRepos\<close>, lines 69 to 72: up to the \<^verbatim>\<open>await\<close>.\<close>

definition loadRepos :: "bool \<Rightarrow> string \<Rightarrow> 't app \<Rightarrow> 't app" where
  "loadRepos DEV userLogin s =
     (if truthy_at (reposMap s) userLogin then s
      else s\<lparr>loadingRepos := Some userLogin,
             pending := pending s @ [ReposPending userLogin],
             calls := calls s @ [repos_url DEV userLogin]\<rparr>)"

text \<open>Lines 73 and 77: the request resolved with \<^verbatim>\<open>res.data = data\<close>.\<close>

definition loadRepos_then :: "string \<Rightarrow> repo list \<Rightarrow> 't app \<Rightarrow> 't app" where
  "loadRepos_then userLogin data s =
     s\<lparr>reposMap := (reposMap s)(userLogin \<mapsto> data), loadingRepos := None\<rparr>"

text \<open>Lines 75 and 77: the request rejected.\<close>

definition loadRepos_catch :: "'t app \<Rightarrow> 't app" where
  "loadRepos_catch s = s\<lparr>error := ''Failed to fetch repositories.'', loadingRepos := None\<rparr>"

text \<open>
  \<^verbatim>\<open>clearSearch\<close>, lines 81 to 87. The focus of the input element is not part of the
  state.
\<close>

definition clearSearch :: "'t app \<Rightarrow> 't app" where
  "clearSearch s = s\<lparr>username := [], users := [], reposMap := Map.empty, error := []\<rparr>"

text \<open>
  \<^verbatim>\<open>String.prototype.trim\<close> removes white space and line terminators from both ends;
  below 256 these are TAB, LF, VT, FF, CR, SP and NBSP.
\<close>

definition is_space :: "char \<Rightarrow> bool" where
  "is_space c \<longleftrightarrow> of_char c \<in> {9, 10, 11, 12, 13, 32, 160 :: nat}"

definition trim :: "string \<Rightarrow> string" where
  "trim s = rev (dropWhile is_space (rev (dropWhile is_space s)))"

text \<open>
  The effect of lines 89 to 95, run when the value returned by \<^verbatim>\<open>useDebounce\<close> has
  changed to \<open>v\<close>.
\<close>

definition debouncedEffect :: "bool \<Rightarrow> string \<Rightarrow> 't \<Rightarrow> 't app \<Rightarrow> 't app" where
  "debouncedEffect DEV v now s =
     (let s' = s\<lparr>debouncedUsername := v\<rparr>
      in if trim v = [] then clearSearch s' else searchUsers DEV v now s')"

section \<open>Events\<close>

text \<open>
  Every handler runs to completion. An event is a user action offered by the rendered
  page, a change of the debounced value, or the settling of a request in flight.
  \<^item> \<open>Type v\<close>: \<^verbatim>\<open>onChange\<close> of the input (line 156);
  \<^item> \<open>ClickSearch now\<close>: the Search button, \<^verbatim>\<open>disabled={!username.trim()}\<close> (lines 114 and 115);
  \<^item> \<open>ClickClear\<close>: the clear button, rendered when \<^verbatim>\<open>username\<close> is not empty (lines 160 to 162);
  \<^item> \<open>DebouncedChange v now\<close>: the effect of line 89, whose dependency changed to \<open>v\<close>;
  \<^item> \<open>ClickUser l\<close>: \<^verbatim>\<open>onClick\<close> of the accordion item of a listed user (line 184);
  \<^item> the four settlements, each of a request that is pending.
\<close>

datatype 't event =
    Type string
  | ClickSearch 't
  | ClickClear
  | DebouncedChange string 't
  | ClickUser string
  | SearchResolved 't search_data 't
  | SearchRejected 't
  | ReposResolved string "repo list"
  | ReposRejected string

fun step :: "bool \<Rightarrow> ('t::minus) app \<Rightarrow> 't event \<Rightarrow> 't app option" where
  "step DEV s (Type v) = Some (s\<lparr>username := v\<rparr>)"
| "step DEV s (ClickSearch now) =
     (if trim (username s) = [] then None else Some (searchUsers DEV (username s) now s))"
| "step DEV s ClickClear =
     (if username s = [] then None else Some (clearSearch s))"
| "step DEV s (DebouncedChange v now) =
     (if v = debouncedUsername s then None else Some (debouncedEffect DEV v now s))"
| "step DEV s (ClickUser l) =
     (if l \<in> set (map login (users s)) then Some (loadRepos DEV l s) else None)"
| "step DEV s (SearchResolved start res now) =
     (if SearchPending start \<in> set (pending s)
      then Some (searchUsers_then start res now (s\<lparr>pending := remove1 (SearchPending start) (pending s)\<rparr>))
      else None)"
| "step DEV s (SearchRejected start) =
     (if SearchPending start \<in> set (pending s)
      then Some (searchUsers_catch (s\<lparr>pending := remove1 (SearchPending start) (pending s)\<rparr>))
      else None)"
| "step DEV s (ReposResolved l data) =
     (if ReposPending l \<in> set (pending s)
      then Some (loadRepos_then l data (s\<lparr>pending := remove1 (ReposPending l) (pending s)\<rparr>))
      else None)"
| "step DEV s (ReposRejected l) =
     (if ReposPending l \<in> set (pending s)
      then Some (loadRepos_catch (s\<lparr>pending := remove1 (ReposPending l) (pending s)\<rparr>))
      else None)"

fun run :: "bool \<Rightarrow> ('t::minus) app \<Rightarrow> 't event list \<Rightarrow> 't app option" where
  "run DEV s [] = Some s"
| "run DEV s (e # es) = (case step DEV s e of None \<Rightarrow> None | Some s' \<Rightarrow> run DEV s' es)"

section \<open>Observations on states and on histories\<close>

text \<open>The number of calls \<^verbatim>\<open>axios.get(`${baseUrl}/users/${l}/repos`)\<close> made so far.\<close>

definition fetches :: "bool \<Rightarrow> string \<Rightarrow> 't app \<Rightarrow> nat" where
  "fetches DEV l s = count_list (calls s) (repos_url DEV l)"

text \<open>The login is an own key of \<^verbatim>\<open>reposMap\<close>.\<close>

definition cached :: "string \<Rightarrow> 't app \<Rightarrow> bool" where
  "cached l s \<longleftrightarrow> l \<in> dom (reposMap s)"

text \<open>
  The events whose handler empties \<^verbatim>\<open>reposMap\<close> and \<^verbatim>\<open>error\<close>: they run
  \<^verbatim>\<open>searchUsers\<close> on a query that is not empty, or \<^verbatim>\<open>clearSearch\<close>.
\<close>

fun resets :: "'t event \<Rightarrow> bool" where
  "resets (ClickSearch now) = True"
| "resets ClickClear = True"
| "resets (DebouncedChange v now) = True"
| "resets e = False"

text \<open>The events of a history that come after its last reset.\<close>

definition since_reset :: "'t event list \<Rightarrow> 't event list" where
  "since_reset es = rev (takeWhile (\<lambda>e. \<not> resets e) (rev es))"

fun resolved_login :: "'t event \<Rightarrow> string option" where
  "resolved_login (ReposResolved l data) = Some l"
| "resolved_login e = None"

text \<open>The logins whose repository fetch has completed successfully since the last reset.\<close>

definition fetched_since_reset :: "'t event list \<Rightarrow> string list" where
  "fetched_since_reset es = List.map_filter resolved_login (since_reset es)"

fun resolved_total :: "'t event \<Rightarrow> int option" where
  "resolved_total (SearchResolved start res now) =
     Some (case total_count res of Some n \<Rightarrow> n | None \<Rightarrow> 0)"
| "resolved_total e = None"

text \<open>The total of the last search of a history that resolved, 0 when there is none.\<close>

definition last_total :: "'t event list \<Rightarrow> int" where
  "last_total es = last (0 # List.map_filter resolved_total es)"

text \<open>The resolution and the rejection of a search request.\<close>

fun search_resolution :: "'t event \<Rightarrow> bool" where
  "search_resolution (SearchResolved start res now) = True"
| "search_resolution e = False"

fun search_rejection :: "'t event \<Rightarrow> bool" where
  "search_rejection (SearchRejected start) = True"
| "search_rejection e = False"

section \<open>The debouncer\<close>

text \<open>
  Modelled from the spec: the hook \<^verbatim>\<open>useDebounce\<close> of \<^verbatim>\<open>hooks/useDebounce\<close>, of which
  the sources hold the tests only. Section 4.1 of the specification: the first value is
  exposed with no delay; on every new input value the pending emission is cancelled and a
  new delay of \<open>d\<close> ms starts; when the delay has run out with no further input, the
  debounced value becomes the latest input; a delay of zero emits on the next scheduling
  tick, not synchronously. Time is counted in ms. \<open>NewValue v\<close> is a render with the input
  \<open>v\<close>; \<open>Elapse dt\<close> lets \<open>dt\<close> ms pass and then runs the timer that is due
  (\<open>Elapse 0\<close> is a scheduling tick at the present time).
\<close>

datatype 'a change = NewValue 'a | Elapse nat

record 'a debouncer =
  debounced :: 'a
  timer :: "('a \<times> nat) option"
  clock :: nat

definition useDebounce :: "'a \<Rightarrow> 'a debouncer" where
  "useDebounce v = \<lparr>debounced = v, timer = None, clock = 0\<rparr>"

fun debounce_step :: "nat \<Rightarrow> 'a debouncer \<Rightarrow> 'a change \<Rightarrow> 'a debouncer" where
  "debounce_step d s (NewValue v) = s\<lparr>timer := Some (v, clock s + d)\<rparr>"
| "debounce_step d s (Elapse dt) =
     (case timer s of
        None \<Rightarrow> s\<lparr>clock := clock s + dt\<rparr>
      | Some (v, due) \<Rightarrow>
          if due \<le> clock s + dt
          then s\<lparr>debounced := v, timer := None, clock := clock s + dt\<rparr>
          else s\<lparr>clock := clock s + dt\<rparr>)"

definition debounce_run :: "nat \<Rightarrow> 'a debouncer \<Rightarrow> 'a change list \<Rightarrow> 'a debouncer" where
  "debounce_run d s es = foldl (debounce_step d) s es"

text \<open>
  Modelled from the spec: the property of section 8 in its own words, on the history of the
  inputs. \<open>arrivals t es\<close> stamps every input with the time it arrives at, the history
  starting at time \<open>t\<close>; \<open>elapsed es\<close> is the time the history takes;
  \<open>held_values d now xs\<close> keeps the inputs that remained unchanged for at least \<open>d\<close> ms,
  an input being unchanged until the next one arrives, the last one until \<open>now\<close>;
  the debounced output is to be the most recent of them, the first value when there is none.
\<close>

fun arrivals :: "nat \<Rightarrow> 'a change list \<Rightarrow> (nat \<times> 'a) list" where
  "arrivals t [] = []"
| "arrivals t (NewValue v # es) = (t, v) # arrivals t es"
| "arrivals t (Elapse dt # es) = arrivals (t + dt) es"

fun elapsed :: "'a change list \<Rightarrow> nat" where
  "elapsed [] = 0"
| "elapsed (NewValue v # es) = elapsed es"
| "elapsed (Elapse dt # es) = dt + elapsed es"

fun held_values :: "nat \<Rightarrow> nat \<Rightarrow> (nat \<times> 'a) list \<Rightarrow> 'a list" where
  "held_values d now [] = []"
| "held_values d now [(t, v)] = (if t + d \<le> now then [v] else [])"
| "held_values d now ((t, v) # (t', v') # xs) =
     (if t + d \<le> t' then [v] else []) @ held_values d now ((t', v') # xs)"

definition debounce_spec :: "nat \<Rightarrow> 'a \<Rightarrow> 'a change list \<Rightarrow> 'a" where
  "debounce_spec d v0 es = last (v0 # held_values d (elapsed es) (arrivals 0 es))"

text \<open>A history is settled when no input has arrived since the last scheduling tick.\<close>

fun is_elapse :: "'a change \<Rightarrow> bool" where
  "is_elapse (Elapse dt) = True"
| "is_elapse (NewValue v) = False"

definition settled :: "'a change list \<Rightarrow> bool" where
  "settled es \<longleftrightarrow> es = [] \<or> is_elapse (last es)"

text \<open>
  What the state of the debouncer has to do with the history \<open>es\<close> it has run: with no
  timer pending the output is the most recent held value and the last input has been held;
  a pending timer is that of the last input.
\<close>

definition debounce_inv :: "nat \<Rightarrow> 'a \<Rightarrow> 'a change list \<Rightarrow> 'a debouncer \<Rightarrow> bool" where
  "debounce_inv d v0 es s \<longleftrightarrow>
     clock s = elapsed es \<and>
     (case timer s of
        None \<Rightarrow>
          debounced s = last (v0 # held_values d (elapsed es) (arrivals 0 es)) \<and>
          (arrivals 0 es \<noteq> [] \<longrightarrow> fst (last (arrivals 0 es)) + d \<le> elapsed es)
      | Some (v, due) \<Rightarrow>
          (\<exists>B t. arrivals 0 es = B @ [(t, v)] \<and> due = t + d \<and> t \<le> elapsed es \<and>
             debounced s \<in> set (v0 # held_values d t B) \<and>
             (0 < d \<longrightarrow> elapsed es < due \<and> debounced s = last (v0 # held_values d t B))))"

text \<open>
  A request for the repositories of \<open>l\<close> is issued only when \<^verbatim>\<open>reposMap[l]\<close> is
  falsy, so no pending request is for a property name of \<^verbatim>\<open>Object.prototype\<close>.
\<close>

definition pending_ok :: "'t app \<Rightarrow> bool" where
  "pending_ok s \<longleftrightarrow>
     (\<forall>l. ReposPending l \<in> set (pending s) \<longrightarrow> l \<notin> set objectPrototypeKeys)"

section \<open>Basic facts\<close>

lemmas ops = searchUsers_def searchUsers_then_def searchUsers_catch_def loadRepos_def
  loadRepos_then_def loadRepos_catch_def clearSearch_def debouncedEffect_def

lemmas evals = ops init_def trim_def is_space_def truthy_at_def objectPrototypeKeys_def
  search_url_def repos_url_def baseUrl_def fetches_def cached_def

lemma repos_url_inject: "repos_url DEV l = repos_url DEV l' \<longleftrightarrow> l = l'"
  by (simp add: repos_url_def)

text \<open>
  On mount the effect of line 89 runs with the empty debounced value: \<^verbatim>\<open>clearSearch\<close>
  on the initial state, which it leaves as it is.
\<close>

lemma clearSearch_init: "clearSearch init = init"
  by (simp add: clearSearch_def init_def)

lemma dropWhile_all: "(\<forall>x \<in> set (dropWhile P xs). P x) \<longleftrightarrow> (\<forall>x \<in> set xs. P x)"
  by (induction xs) auto

lemma trim_empty_iff: "trim v = [] \<longleftrightarrow> (\<forall>c \<in> set v. is_space c)"
  by (simp add: trim_def dropWhile_all)

lemma in_set_remove1D: "x \<in> set (remove1 y xs) \<Longrightarrow> x \<in> set xs"
  using set_remove1_subset [of y xs] by blast

lemma run_append:
  "run DEV s (es @ es') = (case run DEV s es of None \<Rightarrow> None | Some s' \<Rightarrow> run DEV s' es')"
  by (induction es arbitrary: s) (auto split: option.splits)

lemma run_snoc:
  "run DEV s (es @ [e]) = (case run DEV s es of None \<Rightarrow> None | Some s' \<Rightarrow> step DEV s' e)"
  by (simp add: run_append split: option.splits)

section \<open>The search controller\<close>

text \<open>
  Claim C3. A search request that is pending can resolve, and when it resolves with
  \<open>res\<close> at time \<open>now\<close> the handler sets \<^verbatim>\<open>users\<close> to the items of \<open>res\<close> (the empty list
  when the field is absent), \<^verbatim>\<open>totalCount\<close> to its \<^verbatim>\<open>total_count\<close> (0 when absent)
  and \<^verbatim>\<open>searchTime\<close> to \<open>now\<close> minus the start that \<^verbatim>\<open>searchUsers\<close> recorded.
\<close>

theorem search_success_sets_results:
  "SearchPending start \<in> set (pending s) \<Longrightarrow>
   \<exists>s'. step DEV s (SearchResolved start res now) = Some s'
     \<and> users s' = (case items res of Some xs \<Rightarrow> xs | None \<Rightarrow> [])
     \<and> totalCount s' = (case total_count res of Some n \<Rightarrow> n | None \<Rightarrow> 0)
     \<and> searchTime s' = Some (now - start)"
  by (simp add: searchUsers_then_def)

text \<open>
  The search for \<^verbatim>\<open>octo\<close> starts at 1000 and resolves at 1500 with one user and no
  total.
\<close>

theorem search_success_sets_results_witness:
  "SearchPending 1000 \<in> set (pending (searchUsers False ''octo'' (1000::int) init))
   \<and> (\<exists>s'. step False (searchUsers False ''octo'' (1000::int) init)
          (SearchResolved 1000 \<lparr>items = Some [\<lparr>login = ''octocat''\<rparr>], total_count = None\<rparr> 1500)
        = Some s'
      \<and> users s' = [\<lparr>login = ''octocat''\<rparr>] \<and> totalCount s' = 0 \<and> searchTime s' = Some 500)"
  using search_success_sets_results [of "1000::int" "searchUsers False ''octo'' 1000 init" False
      "\<lparr>items = Some [\<lparr>login = ''octocat''\<rparr>], total_count = None\<rparr>" 1500]
  by (simp add: searchUsers_def init_def)

text \<open>
  Claim C6. On a query that is not empty, \<^verbatim>\<open>searchUsers\<close> has emptied \<^verbatim>\<open>users\<close>,
  \<^verbatim>\<open>reposMap\<close>, \<^verbatim>\<open>error\<close> and \<^verbatim>\<open>searchTime\<close> and has recorded the start time with
  the request it issues, by the time it is suspended at the request.
\<close>

theorem search_clears_before_request:
  "query \<noteq> [] \<Longrightarrow>
   users (searchUsers DEV query now s) = [] \<and>
   reposMap (searchUsers DEV query now s) = Map.empty \<and>
   error (searchUsers DEV query now s) = [] \<and>
   searchTime (searchUsers DEV query now s) = None \<and>
   pending (searchUsers DEV query now s) = pending s @ [SearchPending now] \<and>
   calls (searchUsers DEV query now s) = calls s @ [search_url DEV query]"
  by (simp add: searchUsers_def)

text \<open>A second search, for \<^verbatim>\<open>octo\<close> at 2000, on a state that shows results and an error.\<close>

theorem search_clears_before_request_witness:
  "''octo'' \<noteq> [] \<and>
   users (searchUsers True ''octo'' (2000::int)
     (init\<lparr>users := [\<lparr>login = ''a''\<rparr>], reposMap := [''a'' \<mapsto> []], searchTime := Some 7,
           error := ''Failed to fetch repositories.''\<rparr>)) = [] \<and>
   reposMap (searchUsers True ''octo'' (2000::int)
     (init\<lparr>users := [\<lparr>login = ''a''\<rparr>], reposMap := [''a'' \<mapsto> []], searchTime := Some 7,
           error := ''Failed to fetch repositories.''\<rparr>)) ''a'' = None \<and>
   error (searchUsers True ''octo'' (2000::int)
     (init\<lparr>users := [\<lparr>login = ''a''\<rparr>], reposMap := [''a'' \<mapsto> []], searchTime := Some 7,
           error := ''Failed to fetch repositories.''\<rparr>)) = [] \<and>
   searchTime (searchUsers True ''octo'' (2000::int)
     (init\<lparr>users := [\<lparr>login = ''a''\<rparr>], reposMap := [''a'' \<mapsto> []], searchTime := Some 7,
           error := ''Failed to fetch repositories.''\<rparr>)) = None \<and>
   pending (searchUsers True ''octo'' (2000::int)
     (init\<lparr>users := [\<lparr>login = ''a''\<rparr>], reposMap := [''a'' \<mapsto> []], searchTime := Some 7,
           error := ''Failed to fetch repositories.''\<rparr>)) = [SearchPending 2000] \<and>
   calls (searchUsers True ''octo'' (2000::int)
     (init\<lparr>users := [\<lparr>login = ''a''\<rparr>], reposMap := [''a'' \<mapsto> []], searchTime := Some 7,
           error := ''Failed to fetch repositories.''\<rparr>)) = [''/api/search/users?q=octo&per_page=10'']"
  using search_clears_before_request [of "''octo''" True "2000::int"
      "init\<lparr>users := [\<lparr>login = ''a''\<rparr>], reposMap := [''a'' \<mapsto> []], searchTime := Some 7,
           error := ''Failed to fetch repositories.''\<rparr>"]
  by (simp add: init_def search_url_def baseUrl_def)

lemma step_keeps_no_users:
  assumes "step DEV s e = Some s'" and "\<not> search_resolution e" and "users s = []"
  shows "users s' = []"
  using assms by (cases e) (auto simp: ops Let_def split: if_splits)

lemma run_keeps_no_users:
  "run DEV s es = Some s' \<Longrightarrow> list_all (\<lambda>e. \<not> search_resolution e) es \<Longrightarrow> users s = [] \<Longrightarrow>
   users s' = []"
proof (induction es arbitrary: s)
  case Nil
  then show ?case by simp
next
  case (Cons e es)
  from Cons.prems obtain s1 where st: "step DEV s e = Some s1" and r: "run DEV s1 es = Some s'"
    by (auto split: option.splits)
  from Cons.prems have ne: "\<not> search_resolution e"
    and rest: "list_all (\<lambda>e. \<not> search_resolution e) es"
    by simp_all
  from Cons.IH [OF r rest step_keeps_no_users [OF st ne Cons.prems(3)]] show ?case .
qed

text \<open>
  Claim C5, as the code has it. A search request that is pending can reject, and when it
  rejects the handler sets \<^verbatim>\<open>error\<close> to \<^verbatim>\<open>Failed to fetch users.\<close> and leaves
  \<^verbatim>\<open>users\<close> as it is; the list that \<^verbatim>\<open>searchUsers\<close> emptied when it issued the
  request is still empty when that request rejects, whatever events came in between, as
  long as no search request resolved among them.
\<close>

theorem search_failure_sets_error:
  "(SearchPending start \<in> set (pending s) \<longrightarrow>
      (\<exists>s'. step DEV s (SearchRejected start) = Some s'
         \<and> error s' = ''Failed to fetch users.'' \<and> users s' = users s))
   \<and> (query \<noteq> [] \<longrightarrow> list_all (\<lambda>e. \<not> search_resolution e) es \<longrightarrow>
        run DEV (searchUsers DEV query now s) es = Some s1 \<longrightarrow>
        SearchPending now \<in> set (pending s1) \<longrightarrow>
      (\<exists>s'. step DEV s1 (SearchRejected now) = Some s'
         \<and> error s' = ''Failed to fetch users.'' \<and> users s' = []))"
proof -
  have unchanged: "SearchPending start \<in> set (pending s) \<longrightarrow>
      (\<exists>s'. step DEV s (SearchRejected start) = Some s'
         \<and> error s' = ''Failed to fetch users.'' \<and> users s' = users s)"
    by (simp add: searchUsers_catch_def)
  have empty: "query \<noteq> [] \<longrightarrow> list_all (\<lambda>e. \<not> search_resolution e) es \<longrightarrow>
        run DEV (searchUsers DEV query now s) es = Some s1 \<longrightarrow>
        SearchPending now \<in> set (pending s1) \<longrightarrow>
      (\<exists>s'. step DEV s1 (SearchRejected now) = Some s'
         \<and> error s' = ''Failed to fetch users.'' \<and> users s' = [])"
  proof (intro impI)
    assume q: "query \<noteq> []" and n: "list_all (\<lambda>e. \<not> search_resolution e) es"
      and r: "run DEV (searchUsers DEV query now s) es = Some s1"
      and p: "SearchPending now \<in> set (pending s1)"
    from q have "users (searchUsers DEV query now s) = []"
      by (simp add: searchUsers_def)
    with r n have "users s1 = []" by (rule run_keeps_no_users)
    with p show "\<exists>s'. step DEV s1 (SearchRejected now) = Some s'
         \<and> error s' = ''Failed to fetch users.'' \<and> users s' = []"
      by (simp add: searchUsers_catch_def)
  qed
  from unchanged empty show ?thesis by blast
qed

text \<open>
  A state that lists a user and has a search pending since 1000: that search rejects. A
  new search for \<^verbatim>\<open>octo\<close> is issued at 2000; the input changes, the older search
  rejects, and then the new search rejects.
\<close>

theorem search_failure_sets_error_witness:
  "SearchPending 1000 \<in> set (pending ((init :: int app)\<lparr>users := [\<lparr>login = ''a''\<rparr>],
       pending := [SearchPending 1000]\<rparr>))
   \<and> (\<exists>s'. step False ((init :: int app)\<lparr>users := [\<lparr>login = ''a''\<rparr>],
                 pending := [SearchPending 1000]\<rparr>) (SearchRejected 1000) = Some s'
         \<and> error s' = ''Failed to fetch users.'' \<and> users s' = [\<lparr>login = ''a''\<rparr>])
   \<and> ''octo'' \<noteq> []
   \<and> list_all (\<lambda>e. \<not> search_resolution e) [Type ''oct'', SearchRejected (1000::int)]
   \<and> (\<exists>s1 s'. run False (searchUsers False ''octo'' 2000 ((init :: int app)\<lparr>users := [\<lparr>login = ''a''\<rparr>],
                 pending := [SearchPending 1000]\<rparr>)) [Type ''oct'', SearchRejected 1000] = Some s1
         \<and> SearchPending 2000 \<in> set (pending s1)
         \<and> step False s1 (SearchRejected 2000) = Some s'
         \<and> error s' = ''Failed to fetch users.'' \<and> users s' = [])"
proof -
  obtain s1 where r: "run False (searchUsers False ''octo'' 2000
        ((init :: int app)\<lparr>users := [\<lparr>login = ''a''\<rparr>], pending := [SearchPending 1000]\<rparr>))
        [Type ''oct'', SearchRejected 1000] = Some s1"
    by (simp add: evals)
  then have p: "SearchPending 2000 \<in> set (pending s1)"
    by (auto simp: evals)
  have n: "list_all (\<lambda>e. \<not> search_resolution e) [Type ''oct'', SearchRejected (1000::int)]"
    and q: "''octo'' \<noteq> []"
    and p0: "SearchPending 1000 \<in> set (pending ((init :: int app)\<lparr>users := [\<lparr>login = ''a''\<rparr>],
       pending := [SearchPending 1000]\<rparr>))"
    by simp_all
  note t = search_failure_sets_error [of "1000::int"
      "(init :: int app)\<lparr>users := [\<lparr>login = ''a''\<rparr>], pending := [SearchPending 1000]\<rparr>"
      False "''octo''" "[Type ''oct'', SearchRejected 1000]" 2000 s1]
  from t p0 have a: "\<exists>s'. step False ((init :: int app)\<lparr>users := [\<lparr>login = ''a''\<rparr>],
                 pending := [SearchPending 1000]\<rparr>) (SearchRejected 1000) = Some s'
         \<and> error s' = ''Failed to fetch users.''
         \<and> users s' = users ((init :: int app)\<lparr>users := [\<lparr>login = ''a''\<rparr>],
                 pending := [SearchPending 1000]\<rparr>)"
    by blast
  then have a': "\<exists>s'. step False ((init :: int app)\<lparr>users := [\<lparr>login = ''a''\<rparr>],
                 pending := [SearchPending 1000]\<rparr>) (SearchRejected 1000) = Some s'
         \<and> error s' = ''Failed to fetch users.'' \<and> users s' = [\<lparr>login = ''a''\<rparr>]"
    by simp
  from t q n r p obtain s' where b: "step False s1 (SearchRejected 2000) = Some s'"
      "error s' = ''Failed to fetch users.''" "users s' = []"
    by blast
  from r p b have "\<exists>s1 s'. run False (searchUsers False ''octo'' 2000
        ((init :: int app)\<lparr>users := [\<lparr>login = ''a''\<rparr>], pending := [SearchPending 1000]\<rparr>))
        [Type ''oct'', SearchRejected 1000] = Some s1
         \<and> SearchPending 2000 \<in> set (pending s1)
         \<and> step False s1 (SearchRejected 2000) = Some s'
         \<and> error s' = ''Failed to fetch users.'' \<and> users s' = []"
    by blast
  with p0 a' q n show ?thesis by blast
qed

text \<open>
  Claim C5 as it is written fails: two searches for \<^verbatim>\<open>a\<close> are issued, at 0 and at 1;
  the older one resolves with a user, then the newer one rejects. The error is shown and
  the user list is not empty.
\<close>

theorem failed_search_after_stale_success:
  "map_option error (run False (init :: int app)
     [Type ''a'', ClickSearch 0, ClickSearch 1,
      SearchResolved 0 \<lparr>items = Some [\<lparr>login = ''a''\<rparr>], total_count = Some 1\<rparr> 5,
      SearchRejected 1]) = Some ''Failed to fetch users.''
   \<and> map_option users (run False (init :: int app)
     [Type ''a'', ClickSearch 0, ClickSearch 1,
      SearchResolved 0 \<lparr>items = Some [\<lparr>login = ''a''\<rparr>], total_count = Some 1\<rparr> 5,
      SearchRejected 1]) = Some [\<lparr>login = ''a''\<rparr>]"
  by (simp add: evals)

text \<open>
  Claim C4, as the code has it. When the debounced query becomes empty or all white space,
  the effect empties \<^verbatim>\<open>users\<close>, \<^verbatim>\<open>reposMap\<close>, \<^verbatim>\<open>error\<close> and \<^verbatim>\<open>username\<close> and issues
  no request; \<^verbatim>\<open>searchTime\<close> is left as it was.
\<close>

theorem blank_query_clears_results:
  "\<forall>c \<in> set v. is_space c \<Longrightarrow>
   users (debouncedEffect DEV v now s) = [] \<and>
   reposMap (debouncedEffect DEV v now s) = Map.empty \<and>
   error (debouncedEffect DEV v now s) = [] \<and>
   username (debouncedEffect DEV v now s) = [] \<and>
   searchTime (debouncedEffect DEV v now s) = searchTime s \<and>
   calls (debouncedEffect DEV v now s) = calls s \<and>
   pending (debouncedEffect DEV v now s) = pending s"
  using trim_empty_iff [of v] by (simp add: debouncedEffect_def clearSearch_def)

text \<open>The debounced query becomes two spaces on a state that shows results.\<close>

theorem blank_query_clears_results_witness:
  "list_all is_space ''  '' \<and>
   users (debouncedEffect False ''  '' (9::int)
     (init\<lparr>username := ''  '', users := [\<lparr>login = ''a''\<rparr>], reposMap := [''a'' \<mapsto> []],
           error := ''Failed to fetch repositories.''\<rparr>)) = [] \<and>
   reposMap (debouncedEffect False ''  '' (9::int)
     (init\<lparr>username := ''  '', users := [\<lparr>login = ''a''\<rparr>], reposMap := [''a'' \<mapsto> []],
           error := ''Failed to fetch repositories.''\<rparr>)) ''a'' = None \<and>
   error (debouncedEffect False ''  '' (9::int)
     (init\<lparr>username := ''  '', users := [\<lparr>login = ''a''\<rparr>], reposMap := [''a'' \<mapsto> []],
           error := ''Failed to fetch repositories.''\<rparr>)) = [] \<and>
   username (debouncedEffect False ''  '' (9::int)
     (init\<lparr>username := ''  '', users := [\<lparr>login = ''a''\<rparr>], reposMap := [''a'' \<mapsto> []],
           error := ''Failed to fetch repositories.''\<rparr>)) = [] \<and>
   calls (debouncedEffect False ''  '' (9::int)
     (init\<lparr>username := ''  '', users := [\<lparr>login = ''a''\<rparr>], reposMap := [''a'' \<mapsto> []],
           error := ''Failed to fetch repositories.''\<rparr>)) = []"
  using blank_query_clears_results [of "''  ''" False "9::int"
      "init\<lparr>username := ''  '', users := [\<lparr>login = ''a''\<rparr>], reposMap := [''a'' \<mapsto> []],
           error := ''Failed to fetch repositories.''\<rparr>"]
  by (simp add: is_space_def init_def)

text \<open>
  Claim C4 as it is written fails: a search for \<^verbatim>\<open>a\<close> starts at 1000 and resolves at
  1500; then the input is emptied and the debounced query becomes empty at 2000. The reset
  has run, and \<^verbatim>\<open>searchTime\<close> still holds 500.
\<close>

theorem blank_query_keeps_timing:
  "map_option searchTime (run False (init :: int app)
     [Type ''a'', DebouncedChange ''a'' 1000,
      SearchResolved 1000 \<lparr>items = Some [\<lparr>login = ''a''\<rparr>], total_count = Some 1\<rparr> 1500,
      Type [], DebouncedChange [] 2000]) = Some (Some 500)"
  by (simp add: evals)

section \<open>Histories\<close>

lemma since_reset_snoc:
  "since_reset (es @ [e]) = (if resets e then [] else since_reset es @ [e])"
  by (simp add: since_reset_def)

lemma fetched_since_reset_snoc:
  "fetched_since_reset (es @ [e]) =
     (if resets e then []
      else fetched_since_reset es @ (case resolved_login e of None \<Rightarrow> [] | Some l \<Rightarrow> [l]))"
  by (simp add: fetched_since_reset_def since_reset_snoc map_filter_def split: option.splits)

lemma last_total_snoc:
  "last_total (es @ [e]) = (case resolved_total e of None \<Rightarrow> last_total es | Some n \<Rightarrow> n)"
  by (simp add: last_total_def map_filter_def split: option.splits)

lemma step_dom:
  assumes "step DEV s e = Some s'"
  shows "dom (reposMap s') =
     (if resets e then {}
      else dom (reposMap s) \<union> (case resolved_login e of None \<Rightarrow> {} | Some l \<Rightarrow> {l}))"
  using assms
  by (cases e) (auto simp: ops trim_def Let_def split: if_splits)

lemma step_totalCount:
  assumes "step DEV s e = Some s'"
  shows "totalCount s' = (case resolved_total e of None \<Rightarrow> totalCount s | Some n \<Rightarrow> n)"
  using assms
  by (cases e) (auto simp: ops Let_def split: if_splits)

lemma run_dom:
  "run DEV init es = Some s \<Longrightarrow> dom (reposMap s) = set (fetched_since_reset es)"
proof (induction es arbitrary: s rule: rev_induct)
  case Nil
  then show ?case
    by (auto simp: init_def fetched_since_reset_def since_reset_def map_filter_def)
next
  case (snoc e es)
  from snoc.prems obtain s0 where r: "run DEV init es = Some s0" and st: "step DEV s0 e = Some s"
    by (auto simp: run_snoc split: option.splits)
  from snoc.IH [OF r] step_dom [OF st] show ?case
    by (auto simp: fetched_since_reset_snoc split: option.splits)
qed

lemma run_totalCount:
  "run DEV init es = Some s \<Longrightarrow> totalCount s = last_total es"
proof (induction es arbitrary: s rule: rev_induct)
  case Nil
  then show ?case
    by (auto simp: init_def last_total_def map_filter_def)
next
  case (snoc e es)
  from snoc.prems obtain s0 where r: "run DEV init es = Some s0" and st: "step DEV s0 e = Some s"
    by (auto simp: run_snoc split: option.splits)
  from snoc.IH [OF r] step_totalCount [OF st] show ?case
    by (simp add: last_total_snoc split: option.splits)
qed

lemma step_pending_ok:
  assumes "step DEV s e = Some s'" and "pending_ok s"
  shows "pending_ok s'"
  using assms
  by (cases e)
     (auto simp: pending_ok_def ops truthy_at_def Let_def split: if_splits dest!: in_set_remove1D)

lemma run_pending_ok:
  "run DEV s es = Some s' \<Longrightarrow> pending_ok s \<Longrightarrow> pending_ok s'"
  by (induction es arbitrary: s) (auto split: option.splits dest: step_pending_ok)

lemma init_pending_ok: "pending_ok init"
  by (simp add: pending_ok_def init_def)

text \<open>
  Claim C7. After every history of events from the initial state, a login is a key of
  \<^verbatim>\<open>reposMap\<close> if and only if a repository request for it has resolved since the last
  event that reset the cache; and \<^verbatim>\<open>searchUsers\<close> on a query that is not empty resets
  the cache. The cache is reset by the events that issue a search and by those that run
  \<^verbatim>\<open>clearSearch\<close>.
\<close>

theorem cache_keys_are_fetched_logins:
  "run DEV init es = Some s \<Longrightarrow>
   (cached l s \<longleftrightarrow> l \<in> set (fetched_since_reset es))
   \<and> (query \<noteq> [] \<longrightarrow> reposMap (searchUsers DEV query now s) = Map.empty)"
  using run_dom [of DEV es s] by (simp add: cached_def searchUsers_def)

text \<open>
  A search lists \<^verbatim>\<open>a\<close> and \<^verbatim>\<open>b\<close>; the repositories of \<^verbatim>\<open>a\<close> are fetched, those of
  \<^verbatim>\<open>b\<close> fail. Then \<^verbatim>\<open>a\<close> is a key and \<^verbatim>\<open>b\<close> is not, and a new search empties the
  cache.
\<close>

theorem cache_keys_are_fetched_logins_witness:
  "\<exists>s. run False (init :: int app)
         [Type ''a'', ClickSearch 0,
          SearchResolved 0 \<lparr>items = Some [\<lparr>login = ''a''\<rparr>, \<lparr>login = ''b''\<rparr>], total_count = Some 2\<rparr> 5,
          ClickUser ''a'', ReposResolved ''a'' [], ClickUser ''b'', ReposRejected ''b''] = Some s
       \<and> cached ''a'' s \<and> \<not> cached ''b'' s
       \<and> ''a'' \<noteq> [] \<and> reposMap (searchUsers False ''a'' 9 s) ''a'' = None"
proof -
  obtain s where r: "run False (init :: int app)
         [Type ''a'', ClickSearch 0,
          SearchResolved 0 \<lparr>items = Some [\<lparr>login = ''a''\<rparr>, \<lparr>login = ''b''\<rparr>], total_count = Some 2\<rparr> 5,
          ClickUser ''a'', ReposResolved ''a'' [], ClickUser ''b'', ReposRejected ''b''] = Some s"
    by (simp add: evals)
  have "''a'' \<in> set (fetched_since_reset
         [Type ''a'', ClickSearch (0::int),
          SearchResolved 0 \<lparr>items = Some [\<lparr>login = ''a''\<rparr>, \<lparr>login = ''b''\<rparr>], total_count = Some 2\<rparr> 5,
          ClickUser ''a'', ReposResolved ''a'' [], ClickUser ''b'', ReposRejected ''b''])"
    and "''b'' \<notin> set (fetched_since_reset
         [Type ''a'', ClickSearch (0::int),
          SearchResolved 0 \<lparr>items = Some [\<lparr>login = ''a''\<rparr>, \<lparr>login = ''b''\<rparr>], total_count = Some 2\<rparr> 5,
          ClickUser ''a'', ReposResolved ''a'' [], ClickUser ''b'', ReposRejected ''b''])"
    by (simp_all add: fetched_since_reset_def since_reset_def map_filter_def)
  with cache_keys_are_fetched_logins [OF r, of "''a''" "''a''" 9]
    cache_keys_are_fetched_logins [OF r, of "''b''" "''a''" 9] r
  show ?thesis by simp
qed

text \<open>
  Claim C10. \<^verbatim>\<open>totalCount\<close> is left unchanged by \<^verbatim>\<open>searchUsers\<close> up to its request, by
  the rejection of a search, by \<^verbatim>\<open>clearSearch\<close> and by the effect on the debounced query;
  it is 0 initially, and after every history of events from the initial state it holds the
  total of the last search that resolved, 0 when none has.
\<close>

theorem totalCount_only_set_by_success:
  "totalCount (searchUsers DEV query now s) = totalCount s
   \<and> totalCount (searchUsers_catch s) = totalCount s
   \<and> totalCount (clearSearch s) = totalCount s
   \<and> totalCount (debouncedEffect DEV v now s) = totalCount s
   \<and> totalCount (init :: 't app) = 0
   \<and> (run DEV init es = Some (s :: ('t::minus) app) \<longrightarrow> totalCount s = last_total es)"
  using run_totalCount [of DEV es s] by (simp add: ops init_def Let_def)

text \<open>
  A search resolves with a total of 42; a second search fails; then the debounced query
  becomes blank: \<^verbatim>\<open>totalCount\<close> is still 42.
\<close>

theorem totalCount_only_set_by_success_witness:
  "\<exists>s. run False (init :: int app)
         [Type ''a'', ClickSearch 0,
          SearchResolved 0 \<lparr>items = Some [\<lparr>login = ''a''\<rparr>], total_count = Some 42\<rparr> 5,
          ClickSearch 10, SearchRejected 10, Type [], DebouncedChange ''  '' 20] = Some s
       \<and> totalCount s = 42
       \<and> totalCount (searchUsers False ''b'' 30 s) = 42
       \<and> totalCount (searchUsers_catch s) = 42
       \<and> totalCount (clearSearch s) = 42"
proof -
  obtain s where r: "run False (init :: int app)
         [Type ''a'', ClickSearch 0,
          SearchResolved 0 \<lparr>items = Some [\<lparr>login = ''a''\<rparr>], total_count = Some 42\<rparr> 5,
          ClickSearch 10, SearchRejected 10, Type [], DebouncedChange ''  '' 20] = Some s"
    by (simp add: evals)
  have "last_total [Type ''a'', ClickSearch (0::int),
          SearchResolved 0 \<lparr>items = Some [\<lparr>login = ''a''\<rparr>], total_count = Some 42\<rparr> 5,
          ClickSearch 10, SearchRejected 10, Type [], DebouncedChange ''  '' 20] = 42"
    by (simp add: last_total_def map_filter_def)
  with totalCount_only_set_by_success [of False "''b''" 30 s "[]"
      "[Type ''a'', ClickSearch 0,
          SearchResolved 0 \<lparr>items = Some [\<lparr>login = ''a''\<rparr>], total_count = Some 42\<rparr> 5,
          ClickSearch 10, SearchRejected 10, Type [], DebouncedChange ''  '' 20]"] r
  show ?thesis by simp
qed

section \<open>The repository cache and loader\<close>

lemma step_keeps_cached:
  assumes "step DEV s e = Some s'" and "\<not> resets e" and "cached l s"
  shows "cached l s' \<and> fetches DEV l s' = fetches DEV l s"
  using assms
  by (cases e)
     (auto simp: cached_def fetches_def ops truthy_at_def repos_url_inject split: if_splits)

lemma run_keeps_cached:
  "run DEV s es = Some s' \<Longrightarrow> list_all (\<lambda>e. \<not> resets e) es \<Longrightarrow> cached l s \<Longrightarrow>
   cached l s' \<and> fetches DEV l s' = fetches DEV l s"
proof (induction es arbitrary: s)
  case Nil
  then show ?case by simp
next
  case (Cons e es)
  from Cons.prems obtain s1 where st: "step DEV s e = Some s1" and r: "run DEV s1 es = Some s'"
    by (auto split: option.splits)
  from Cons.prems have ne: "\<not> resets e" and rest: "list_all (\<lambda>e. \<not> resets e) es"
    by simp_all
  from step_keeps_cached [OF st ne Cons.prems(3)]
  have c1: "cached l s1" and f1: "fetches DEV l s1 = fetches DEV l s" by simp_all
  from Cons.IH [OF r rest c1] f1 show ?case by simp
qed

text \<open>
  Claim C1, as the code has it. When a login is a key of the cache, \<^verbatim>\<open>loadRepos\<close>
  changes nothing and makes no call; the login stays in the cache and no further call is
  made for it, whatever events follow, until an event resets the cache; and when
  \<^verbatim>\<open>reposMap[k]\<close> is falsy, loading \<open>k\<close>, letting the request resolve and calling the
  loader twice more makes exactly one call in all.
\<close>

theorem cached_login_not_refetched:
  "(cached l s \<longrightarrow> loadRepos DEV l s = s)
   \<and> (cached l s \<longrightarrow> list_all (\<lambda>e. \<not> resets e) es \<longrightarrow> run DEV s es = Some s' \<longrightarrow>
        cached l s' \<and> fetches DEV l s' = fetches DEV l s)
   \<and> (\<not> truthy_at (reposMap s0) k \<longrightarrow>
        (\<exists>s2. step DEV (loadRepos DEV k s0) (ReposResolved k data) = Some s2
           \<and> cached k s2
           \<and> loadRepos DEV k (loadRepos DEV k s2) = s2
           \<and> calls s2 = calls s0 @ [repos_url DEV k]))"
proof -
  have served: "cached l s \<longrightarrow> loadRepos DEV l s = s"
    by (auto simp: cached_def loadRepos_def truthy_at_def)
  have kept: "cached l s \<longrightarrow> list_all (\<lambda>e. \<not> resets e) es \<longrightarrow> run DEV s es = Some s' \<longrightarrow>
        cached l s' \<and> fetches DEV l s' = fetches DEV l s"
    using run_keeps_cached by blast
  have once: "\<not> truthy_at (reposMap s0) k \<longrightarrow>
        (\<exists>s2. step DEV (loadRepos DEV k s0) (ReposResolved k data) = Some s2
           \<and> cached k s2
           \<and> loadRepos DEV k (loadRepos DEV k s2) = s2
           \<and> calls s2 = calls s0 @ [repos_url DEV k])"
    by (simp add: loadRepos_def loadRepos_then_def truthy_at_def cached_def)
  from served kept once show ?thesis by blast
qed

text \<open>
  With \<^verbatim>\<open>a\<close> listed and cached and a search pending: two clicks on \<^verbatim>\<open>a\<close> around the
  rejection of the search make no call. With \<^verbatim>\<open>a\<close> listed and not cached: one call.
\<close>

theorem cached_login_not_refetched_witness:
  "cached ''a'' ((init :: int app)\<lparr>users := [\<lparr>login = ''a''\<rparr>], reposMap := [''a'' \<mapsto> []],
          pending := [SearchPending 3]\<rparr>)
   \<and> list_all (\<lambda>e. \<not> resets e) [ClickUser ''a'', SearchRejected (3::int), ClickUser ''a'']
   \<and> run False ((init :: int app)\<lparr>users := [\<lparr>login = ''a''\<rparr>], reposMap := [''a'' \<mapsto> []],
          pending := [SearchPending 3]\<rparr>)
        [ClickUser ''a'', SearchRejected 3, ClickUser ''a'']
      = Some ((init :: int app)\<lparr>users := [\<lparr>login = ''a''\<rparr>], reposMap := [''a'' \<mapsto> []],
          pending := [], error := ''Failed to fetch users.''\<rparr>)
   \<and> fetches False ''a'' ((init :: int app)\<lparr>users := [\<lparr>login = ''a''\<rparr>], reposMap := [''a'' \<mapsto> []],
          pending := [], error := ''Failed to fetch users.''\<rparr>) = 0
   \<and> \<not> truthy_at (reposMap ((init :: int app)\<lparr>users := [\<lparr>login = ''a''\<rparr>]\<rparr>)) ''a''
   \<and> (\<exists>s2. step False (loadRepos False ''a'' ((init :: int app)\<lparr>users := [\<lparr>login = ''a''\<rparr>]\<rparr>))
            (ReposResolved ''a'' []) = Some s2
          \<and> cached ''a'' s2
          \<and> loadRepos False ''a'' (loadRepos False ''a'' s2) = s2
          \<and> calls s2 = [''https://api.github.com/users/a/repos''])"
  using cached_login_not_refetched
    [of "''a''" "(init :: int app)\<lparr>users := [\<lparr>login = ''a''\<rparr>], reposMap := [''a'' \<mapsto> []],
          pending := [SearchPending 3]\<rparr>" False
        "[ClickUser ''a'', SearchRejected 3, ClickUser ''a'']"
        "(init :: int app)\<lparr>users := [\<lparr>login = ''a''\<rparr>], reposMap := [''a'' \<mapsto> []],
          pending := [], error := ''Failed to fetch users.''\<rparr>"
        "(init :: int app)\<lparr>users := [\<lparr>login = ''a''\<rparr>]\<rparr>" "''a''" "[]"]
  by (simp add: evals)

text \<open>
  Claim C1 as it is written fails: a search lists \<^verbatim>\<open>a\<close>; a click on \<^verbatim>\<open>a\<close> issues a
  fetch, which fails; a second click issues a second fetch for \<^verbatim>\<open>a\<close>, with no search in
  between.
\<close>

theorem failed_fetch_is_repeated:
  "map_option (fetches False ''a'') (run False (init :: int app)
     [Type ''a'', ClickSearch 0,
      SearchResolved 0 \<lparr>items = Some [\<lparr>login = ''a''\<rparr>], total_count = Some 1\<rparr> 5,
      ClickUser ''a'', ReposRejected ''a'', ClickUser ''a'']) = Some 2"
  by (simp add: evals)

lemma step_keeps_uncached:
  assumes "step DEV s e = Some s'" and "resolved_login e \<noteq> Some l" and "\<not> cached l s"
  shows "\<not> cached l s'"
  using assms by (cases e) (auto simp: cached_def ops Let_def split: if_splits)

lemma run_keeps_uncached:
  "run DEV s es = Some s' \<Longrightarrow> list_all (\<lambda>e. resolved_login e \<noteq> Some l) es \<Longrightarrow>
   \<not> cached l s \<Longrightarrow> \<not> cached l s'"
proof (induction es arbitrary: s)
  case Nil
  then show ?case by simp
next
  case (Cons e es)
  from Cons.prems obtain s1 where st: "step DEV s e = Some s1" and r: "run DEV s1 es = Some s'"
    by (auto split: option.splits)
  from Cons.prems have ne: "resolved_login e \<noteq> Some l"
    and rest: "list_all (\<lambda>e. resolved_login e \<noteq> Some l) es"
    by simp_all
  from Cons.IH [OF r rest step_keeps_uncached [OF st ne Cons.prems(3)]] show ?case .
qed

text \<open>
  Claim C8, as the code has it. At every state reached from the initial state, a pending
  repository request for \<open>l\<close> can reject and can resolve. When it rejects, the handler
  sets \<^verbatim>\<open>error\<close> to \<^verbatim>\<open>Failed to fetch repositories.\<close> and leaves \<^verbatim>\<open>reposMap\<close> as it
  is. When \<open>l\<close> is not cached at the rejection, then after any later events among which no
  request for \<open>l\<close> resolves, \<^verbatim>\<open>loadRepos\<close> for \<open>l\<close> issues a new request. Whether the
  request rejects or resolves, \<^verbatim>\<open>loadingRepos\<close> is \<^verbatim>\<open>null\<close> afterwards.
\<close>

theorem repos_failure_leaves_retry_open:
  "run DEV init es = Some s \<Longrightarrow> ReposPending l \<in> set (pending s) \<Longrightarrow>
   (\<exists>s'. step DEV s (ReposRejected l) = Some s'
      \<and> error s' = ''Failed to fetch repositories.''
      \<and> reposMap s' = reposMap s
      \<and> loadingRepos s' = None)
   \<and> (\<not> cached l s \<longrightarrow> list_all (\<lambda>e. resolved_login e \<noteq> Some l) es' \<longrightarrow>
        run DEV s (ReposRejected l # es') = Some s'' \<longrightarrow>
        \<not> cached l s'' \<and> calls (loadRepos DEV l s'') = calls s'' @ [repos_url DEV l])
   \<and> (\<exists>s'. step DEV s (ReposResolved l data) = Some s' \<and> loadingRepos s' = None)"
proof -
  assume r: "run DEV init es = Some s" and p: "ReposPending l \<in> set (pending s)"
  from run_pending_ok [OF r init_pending_ok] p have k: "l \<notin> set objectPrototypeKeys"
    by (simp add: pending_ok_def)
  from p have rejected: "\<exists>s'. step DEV s (ReposRejected l) = Some s'
      \<and> error s' = ''Failed to fetch repositories.''
      \<and> reposMap s' = reposMap s
      \<and> loadingRepos s' = None"
    by (simp add: loadRepos_catch_def)
  from p have resolved: "\<exists>s'. step DEV s (ReposResolved l data) = Some s' \<and> loadingRepos s' = None"
    by (simp add: loadRepos_then_def)
  have retry: "\<not> cached l s \<longrightarrow> list_all (\<lambda>e. resolved_login e \<noteq> Some l) es' \<longrightarrow>
        run DEV s (ReposRejected l # es') = Some s'' \<longrightarrow>
        \<not> cached l s'' \<and> calls (loadRepos DEV l s'') = calls s'' @ [repos_url DEV l]"
  proof (intro impI)
    assume c: "\<not> cached l s" and n: "list_all (\<lambda>e. resolved_login e \<noteq> Some l) es'"
      and r': "run DEV s (ReposRejected l # es') = Some s''"
    from n have n': "list_all (\<lambda>e. resolved_login e \<noteq> Some l) (ReposRejected l # es')"
      by simp
    from r' n' c have c'': "\<not> cached l s''" by (rule run_keeps_uncached)
    with k have "\<not> truthy_at (reposMap s'') l"
      by (auto simp: truthy_at_def cached_def)
    then have "calls (loadRepos DEV l s'') = calls s'' @ [repos_url DEV l]"
      by (simp add: loadRepos_def)
    with c'' show "\<not> cached l s'' \<and> calls (loadRepos DEV l s'') = calls s'' @ [repos_url DEV l]"
      by simp
  qed
  from rejected retry resolved show ?thesis by blast
qed

text \<open>
  A search lists \<^verbatim>\<open>a\<close> and \<^verbatim>\<open>b\<close>, and a click on \<^verbatim>\<open>a\<close> has a request pending. It
  rejects; the repositories of \<^verbatim>\<open>b\<close> are fetched; then \<^verbatim>\<open>loadRepos\<close> for \<^verbatim>\<open>a\<close>
  issues a new request.
\<close>

theorem repos_failure_leaves_retry_open_witness:
  "\<exists>s s''. run True (init :: int app)
         [Type ''a'', ClickSearch 0,
          SearchResolved 0 \<lparr>items = Some [\<lparr>login = ''a''\<rparr>, \<lparr>login = ''b''\<rparr>], total_count = Some 2\<rparr> 5,
          ClickUser ''a''] = Some s
       \<and> ReposPending ''a'' \<in> set (pending s)
       \<and> loadingRepos s = Some ''a''
       \<and> \<not> cached ''a'' s
       \<and> (\<exists>s'. step True s (ReposRejected ''a'') = Some s'
            \<and> error s' = ''Failed to fetch repositories.''
            \<and> reposMap s' = reposMap s
            \<and> loadingRepos s' = None)
       \<and> list_all (\<lambda>e. resolved_login e \<noteq> Some ''a'')
            [ClickUser ''b'', ReposResolved ''b'' [] :: int event]
       \<and> run True s [ReposRejected ''a'', ClickUser ''b'', ReposResolved ''b'' []] = Some s''
       \<and> \<not> cached ''a'' s''
       \<and> calls (loadRepos True ''a'' s'') = calls s'' @ [''/api/users/a/repos'']
       \<and> (\<exists>s'. step True s (ReposResolved ''a'' []) = Some s' \<and> loadingRepos s' = None)"
proof -
  obtain s where r: "run True (init :: int app)
         [Type ''a'', ClickSearch 0,
          SearchResolved 0 \<lparr>items = Some [\<lparr>login = ''a''\<rparr>, \<lparr>login = ''b''\<rparr>], total_count = Some 2\<rparr> 5,
          ClickUser ''a''] = Some s"
    by (simp add: evals)
  from r have p: "ReposPending ''a'' \<in> set (pending s)"
    and q: "loadingRepos s = Some ''a''" and c: "\<not> cached ''a'' s"
    by (auto simp: evals)
  from r obtain s'' where r': "run True s [ReposRejected ''a'', ClickUser ''b'', ReposResolved ''b'' []] = Some s''"
    by (auto simp: evals)
  have n: "list_all (\<lambda>e. resolved_login e \<noteq> Some ''a'')
            [ClickUser ''b'', ReposResolved ''b'' [] :: int event]"
    by simp
  have u: "repos_url True ''a'' = ''/api/users/a/repos''"
    by (simp add: repos_url_def baseUrl_def)
  note t = repos_failure_leaves_retry_open [OF r p,
      of "[ClickUser ''b'', ReposResolved ''b'' []]" s'' "[]"]
  from t have a: "\<exists>s'. step True s (ReposRejected ''a'') = Some s'
            \<and> error s' = ''Failed to fetch repositories.''
            \<and> reposMap s' = reposMap s
            \<and> loadingRepos s' = None"
    and b: "\<exists>s'. step True s (ReposResolved ''a'' []) = Some s' \<and> loadingRepos s' = None"
    by blast+
  from t c n r' u have d: "\<not> cached ''a'' s''"
    and e: "calls (loadRepos True ''a'' s'') = calls s'' @ [''/api/users/a/repos'']"
    by simp_all
  from r p q c a n r' d e b show ?thesis by blast
qed

text \<open>
  Claim C8 as it is written fails: a search lists \<^verbatim>\<open>a\<close>; two clicks on \<^verbatim>\<open>a\<close> issue two
  fetches; the first resolves and the second rejects. After the failed fetch, a click on
  \<^verbatim>\<open>a\<close> issues no new fetch: two calls before it and two after it.
\<close>

theorem failed_fetch_beside_success_is_not_repeated:
  "map_option error (run False (init :: int app)
     [Type ''a'', ClickSearch 0,
      SearchResolved 0 \<lparr>items = Some [\<lparr>login = ''a''\<rparr>], total_count = Some 1\<rparr> 5,
      ClickUser ''a'', ClickUser ''a'', ReposResolved ''a'' [], ReposRejected ''a''])
     = Some ''Failed to fetch repositories.''
   \<and> map_option (fetches False ''a'') (run False (init :: int app)
     [Type ''a'', ClickSearch 0,
      SearchResolved 0 \<lparr>items = Some [\<lparr>login = ''a''\<rparr>], total_count = Some 1\<rparr> 5,
      ClickUser ''a'', ClickUser ''a'', ReposResolved ''a'' [], ReposRejected ''a'']) = Some 2
   \<and> map_option (fetches False ''a'') (run False (init :: int app)
     [Type ''a'', ClickSearch 0,
      SearchResolved 0 \<lparr>items = Some [\<lparr>login = ''a''\<rparr>], total_count = Some 1\<rparr> 5,
      ClickUser ''a'', ClickUser ''a'', ReposResolved ''a'' [], ReposRejected ''a'',
      ClickUser ''a'']) = Some 2"
  by (simp add: evals)

lemma step_keeps_repos_error:
  assumes "step DEV s e = Some s'" and "\<not> resets e \<and> \<not> search_rejection e"
    and "error s = ''Failed to fetch repositories.''"
  shows "error s' = ''Failed to fetch repositories.''"
  using assms by (cases e) (auto simp: ops split: if_splits)

lemma run_keeps_repos_error:
  "run DEV s es = Some s' \<Longrightarrow> list_all (\<lambda>e. \<not> resets e \<and> \<not> search_rejection e) es \<Longrightarrow>
   error s = ''Failed to fetch repositories.'' \<Longrightarrow> error s' = ''Failed to fetch repositories.''"
proof (induction es arbitrary: s)
  case Nil
  then show ?case by simp
next
  case (Cons e es)
  from Cons.prems obtain s1 where st: "step DEV s e = Some s1" and r: "run DEV s1 es = Some s'"
    by (auto split: option.splits)
  from Cons.prems have le: "\<not> resets e \<and> \<not> search_rejection e"
    and rest: "list_all (\<lambda>e. \<not> resets e \<and> \<not> search_rejection e) es"
    by simp_all
  from Cons.IH [OF r rest step_keeps_repos_error [OF st le Cons.prems(3)]] show ?case .
qed

text \<open>
  Claim C9, as the code has it. The resolution of a repository request leaves \<^verbatim>\<open>error\<close>
  as it is; after a repository request has rejected, \<^verbatim>\<open>error\<close> is
  \<^verbatim>\<open>Failed to fetch repositories.\<close> and still is after any further events, among them
  the resolution of a request for the same or another login, as long as none of them
  issues a search, runs \<^verbatim>\<open>clearSearch\<close> or is the rejection of a search, which writes
  its own message to the same field; and an event that takes \<^verbatim>\<open>error\<close> from a message
  to the empty string is one that issues a search or runs \<^verbatim>\<open>clearSearch\<close>.
\<close>

theorem repos_error_outlives_later_success:
  "(step DEV sa (ReposResolved l data) = Some sa' \<longrightarrow> error sa' = error sa)
   \<and> (step DEV s (ReposRejected k) = Some s1 \<longrightarrow>
        list_all (\<lambda>e. \<not> resets e \<and> \<not> search_rejection e) es \<longrightarrow>
        run DEV s1 es = Some s2 \<longrightarrow> error s2 = ''Failed to fetch repositories.'')
   \<and> (step DEV sc e = Some sc' \<longrightarrow> error sc \<noteq> [] \<longrightarrow> error sc' = [] \<longrightarrow> resets e)"
proof -
  have success: "step DEV sa (ReposResolved l data) = Some sa' \<longrightarrow> error sa' = error sa"
    by (auto simp: loadRepos_then_def split: if_splits)
  have later: "step DEV s (ReposRejected k) = Some s1 \<longrightarrow>
        list_all (\<lambda>e. \<not> resets e \<and> \<not> search_rejection e) es \<longrightarrow>
        run DEV s1 es = Some s2 \<longrightarrow> error s2 = ''Failed to fetch repositories.''"
  proof (intro impI)
    assume st: "step DEV s (ReposRejected k) = Some s1"
      and le: "list_all (\<lambda>e. \<not> resets e \<and> \<not> search_rejection e) es"
      and r: "run DEV s1 es = Some s2"
    from st have "error s1 = ''Failed to fetch repositories.''"
      by (auto simp: loadRepos_catch_def split: if_splits)
    with r le show "error s2 = ''Failed to fetch repositories.''"
      by (rule run_keeps_repos_error)
  qed
  have cleared: "step DEV sc e = Some sc' \<longrightarrow> error sc \<noteq> [] \<longrightarrow> error sc' = [] \<longrightarrow> resets e"
    by (cases e) (auto simp: ops split: if_splits)
  from success later cleared show ?thesis by blast
qed

text \<open>
  Two repository requests are pending, for \<^verbatim>\<open>a\<close> and for \<^verbatim>\<open>b\<close>, and a search since 3.
  The request for \<^verbatim>\<open>a\<close> rejects; the input changes, the search resolves, the request
  for \<^verbatim>\<open>b\<close> resolves, a second one for \<^verbatim>\<open>a\<close> resolves: the message stays, until the
  clear button is clicked.
\<close>

theorem repos_error_outlives_later_success_witness:
  "\<exists>s1 s2 sa' sc'.
     step False ((init :: int app)\<lparr>users := [\<lparr>login = ''a''\<rparr>, \<lparr>login = ''b''\<rparr>],
        pending := [ReposPending ''a'', ReposPending ''b'', SearchPending 3],
        loadingRepos := Some ''b''\<rparr>)
       (ReposRejected ''a'') = Some s1
     \<and> list_all (\<lambda>e. \<not> resets e \<and> \<not> search_rejection e)
          [Type ''ab'',
           SearchResolved 3 \<lparr>items = Some [\<lparr>login = ''a''\<rparr>, \<lparr>login = ''b''\<rparr>], total_count = None\<rparr> 8,
           ReposResolved ''b'' [], ClickUser ''a'', ReposResolved ''a'' [] :: int event]
     \<and> run False s1
          [Type ''ab'',
           SearchResolved 3 \<lparr>items = Some [\<lparr>login = ''a''\<rparr>, \<lparr>login = ''b''\<rparr>], total_count = None\<rparr> 8,
           ReposResolved ''b'' [], ClickUser ''a'', ReposResolved ''a'' []] = Some s2
     \<and> error s2 = ''Failed to fetch repositories.''
     \<and> cached ''a'' s2 \<and> cached ''b'' s2
     \<and> step False s1 (ReposResolved ''b'' []) = Some sa'
     \<and> error sa' = ''Failed to fetch repositories.''
     \<and> step False s2 ClickClear = Some sc'
     \<and> error s2 \<noteq> [] \<and> error sc' = [] \<and> resets (ClickClear :: int event)"
proof -
  obtain s1 where a: "step False ((init :: int app)\<lparr>users := [\<lparr>login = ''a''\<rparr>, \<lparr>login = ''b''\<rparr>],
        pending := [ReposPending ''a'', ReposPending ''b'', SearchPending 3],
        loadingRepos := Some ''b''\<rparr>)
       (ReposRejected ''a'') = Some s1"
    by (simp add: evals)
  then obtain s2 where b: "run False s1
          [Type ''ab'',
           SearchResolved 3 \<lparr>items = Some [\<lparr>login = ''a''\<rparr>, \<lparr>login = ''b''\<rparr>], total_count = None\<rparr> 8,
           ReposResolved ''b'' [], ClickUser ''a'', ReposResolved ''a'' []] = Some s2"
    by (auto simp: evals)
  from a obtain sa' where c: "step False s1 (ReposResolved ''b'' []) = Some sa'"
    by (auto simp: evals)
  from a b have e2: "error s2 \<noteq> []" and c2: "cached ''a'' s2" "cached ''b'' s2"
    and u2: "username s2 = ''ab''"
    by (auto simp: evals)
  from u2 obtain sc' where d: "step False s2 ClickClear = Some sc'" and d': "error sc' = []"
    by (simp add: clearSearch_def)
  have le: "list_all (\<lambda>e. \<not> resets e \<and> \<not> search_rejection e)
          [Type ''ab'',
           SearchResolved 3 \<lparr>items = Some [\<lparr>login = ''a''\<rparr>, \<lparr>login = ''b''\<rparr>], total_count = None\<rparr> 8,
           ReposResolved ''b'' [], ClickUser ''a'', ReposResolved ''a'' [] :: int event]"
    by simp
  note t = repos_error_outlives_later_success
    [of False s1 "''b''" "[]" sa' "(init :: int app)\<lparr>users := [\<lparr>login = ''a''\<rparr>, \<lparr>login = ''b''\<rparr>],
        pending := [ReposPending ''a'', ReposPending ''b'', SearchPending 3],
        loadingRepos := Some ''b''\<rparr>"
      "''a''" s1 "[Type ''ab'',
           SearchResolved 3 \<lparr>items = Some [\<lparr>login = ''a''\<rparr>, \<lparr>login = ''b''\<rparr>], total_count = None\<rparr> 8,
           ReposResolved ''b'' [], ClickUser ''a'', ReposResolved ''a'' []]" s2
      s2 ClickClear sc']
  from t a b le have x: "error s2 = ''Failed to fetch repositories.''" by blast
  from t c have "error sa' = error s1" by blast
  moreover from a have "error s1 = ''Failed to fetch repositories.''" by (auto simp: evals)
  ultimately have y: "error sa' = ''Failed to fetch repositories.''" by simp
  from t d d' e2 have rc: "resets (ClickClear :: int event)" by blast
  from a b c d d' e2 c2 le x y rc show ?thesis by blast
qed

text \<open>
  Claim C9 as it is written fails: two searches are issued, at 0 and at 1; the newer one
  lists \<^verbatim>\<open>a\<close> and \<^verbatim>\<open>b\<close>. The fetch for \<^verbatim>\<open>a\<close> fails, the older search rejects, the
  fetch for \<^verbatim>\<open>b\<close> succeeds, with no search issued and no reset in between: the error
  field holds the message of the search.
\<close>

theorem repos_error_overwritten_by_search_error:
  "map_option error (run False (init :: int app)
     [Type ''a'', ClickSearch 0, ClickSearch 1,
      SearchResolved 1 \<lparr>items = Some [\<lparr>login = ''a''\<rparr>, \<lparr>login = ''b''\<rparr>], total_count = Some 2\<rparr> 5,
      ClickUser ''a'', ClickUser ''b'', ReposRejected ''a''])
     = Some ''Failed to fetch repositories.''
   \<and> map_option error (run False (init :: int app)
     [Type ''a'', ClickSearch 0, ClickSearch 1,
      SearchResolved 1 \<lparr>items = Some [\<lparr>login = ''a''\<rparr>, \<lparr>login = ''b''\<rparr>], total_count = Some 2\<rparr> 5,
      ClickUser ''a'', ClickUser ''b'', ReposRejected ''a'',
      SearchRejected 0, ReposResolved ''b'' []])
     = Some ''Failed to fetch users.''"
  by (simp add: evals)

section \<open>The debouncer and its specification\<close>

lemma elapsed_snoc:
  "elapsed (es @ [e]) = elapsed es + (case e of NewValue v \<Rightarrow> 0 | Elapse dt \<Rightarrow> dt)"
  by (induction es rule: elapsed.induct) (auto split: change.splits)

lemma arrivals_snoc:
  "arrivals t (es @ [e]) =
     arrivals t es @ (case e of NewValue v \<Rightarrow> [(t + elapsed es, v)] | Elapse dt \<Rightarrow> [])"
  by (induction t es rule: arrivals.induct) (auto split: change.splits)

lemma held_values_snoc:
  "held_values d now (B @ [(t, v)]) = held_values d t B @ (if t + d \<le> now then [v] else [])"
  by (induction d now B rule: held_values.induct) auto

lemma held_values_later:
  assumes "A \<noteq> []" and "fst (last A) + d \<le> now" and "now \<le> now'"
  shows "held_values d now' A = held_values d now A"
proof -
  from assms(1) obtain B t v where A: "A = B @ [(t, v)]"
    by (metis rev_exhaust surj_pair)
  with assms(2,3) show ?thesis by (simp add: held_values_snoc)
qed

lemma debounce_run_snoc:
  "debounce_run d s (es @ [e]) = debounce_step d (debounce_run d s es) e"
  by (simp add: debounce_run_def)

lemma debounce_inv_NoneI:
  assumes "clock s = elapsed es" and "timer s = None"
    and "debounced s = last (v0 # held_values d (elapsed es) (arrivals 0 es))"
    and "arrivals 0 es \<noteq> [] \<Longrightarrow> fst (last (arrivals 0 es)) + d \<le> elapsed es"
  shows "debounce_inv d v0 es s"
  using assms by (simp add: debounce_inv_def)

lemma debounce_inv_SomeI:
  assumes "clock s = elapsed es" and "timer s = Some (v, due)"
    and "arrivals 0 es = B @ [(t, v)]" and "due = t + d" and "t \<le> elapsed es"
    and "debounced s \<in> set (v0 # held_values d t B)"
    and "0 < d \<Longrightarrow> elapsed es < due \<and> debounced s = last (v0 # held_values d t B)"
  shows "debounce_inv d v0 es s"
  unfolding debounce_inv_def using assms by (simp del: set_simps)

lemma debounce_inv_NoneD:
  assumes "debounce_inv d v0 es s" and "timer s = None"
  shows "clock s = elapsed es"
    and "debounced s = last (v0 # held_values d (elapsed es) (arrivals 0 es))"
    and "arrivals 0 es \<noteq> [] \<Longrightarrow> fst (last (arrivals 0 es)) + d \<le> elapsed es"
  using assms by (simp_all add: debounce_inv_def)

lemma debounce_inv_SomeE:
  assumes "debounce_inv d v0 es s" and "timer s = Some (v, due)"
  obtains B t where "clock s = elapsed es" and "arrivals 0 es = B @ [(t, v)]"
    and "due = t + d" and "t \<le> elapsed es"
    and "debounced s \<in> set (v0 # held_values d t B)"
    and "0 < d \<Longrightarrow> elapsed es < due \<and> debounced s = last (v0 # held_values d t B)"
proof -
  from assms have c: "clock s = elapsed es" by (simp add: debounce_inv_def)
  from assms have "\<exists>B t. arrivals 0 es = B @ [(t, v)] \<and> due = t + d \<and> t \<le> elapsed es \<and>
             debounced s \<in> set (v0 # held_values d t B) \<and>
             (0 < d \<longrightarrow> elapsed es < due \<and> debounced s = last (v0 # held_values d t B))"
    by (simp add: debounce_inv_def del: set_simps)
  then obtain B t where "arrivals 0 es = B @ [(t, v)]" "due = t + d" "t \<le> elapsed es"
      "debounced s \<in> set (v0 # held_values d t B)"
      "0 < d \<longrightarrow> elapsed es < due \<and> debounced s = last (v0 # held_values d t B)"
    by blast
  with c that show thesis by blast
qed

lemma debounce_inv_step:
  assumes inv: "debounce_inv d v0 es s"
  shows "debounce_inv d v0 (es @ [e]) (debounce_step d s e)"
proof (cases e)
  case (NewValue w)
  let ?A = "arrivals 0 es" and ?now = "elapsed es"
  have c: "clock s = ?now" using inv by (simp add: debounce_inv_def)
  have A': "arrivals 0 (es @ [e]) = ?A @ [(?now, w)]" and n': "elapsed (es @ [e]) = ?now"
    using NewValue by (simp_all add: arrivals_snoc elapsed_snoc)
  have t': "timer (debounce_step d s e) = Some (w, ?now + d)"
    and d': "debounced (debounce_step d s e) = debounced s"
    and c': "clock (debounce_step d s e) = ?now"
    using NewValue c by simp_all
  have m: "debounced s \<in> set (v0 # held_values d ?now ?A)"
    and l: "0 < d \<Longrightarrow> debounced s = last (v0 # held_values d ?now ?A)"
  proof -
    show "debounced s \<in> set (v0 # held_values d ?now ?A)"
    proof (cases "timer s")
      case None
      from debounce_inv_NoneD(2) [OF inv None] show ?thesis
        using last_in_set [of "v0 # held_values d ?now ?A"] by simp
    next
      case (Some p)
      obtain v due where p: "timer s = Some (v, due)" using Some by (cases p) simp
      from inv p show ?thesis
        by (rule debounce_inv_SomeE) (auto simp: held_values_snoc)
    qed
    show "debounced s = last (v0 # held_values d ?now ?A)" if "0 < d"
    proof (cases "timer s")
      case None
      from debounce_inv_NoneD(2) [OF inv None] show ?thesis .
    next
      case (Some p)
      obtain v due where p: "timer s = Some (v, due)" using Some by (cases p) simp
      from inv p show ?thesis
      proof (rule debounce_inv_SomeE)
        fix B t
        assume "arrivals 0 es = B @ [(t, v)]" "due = t + d"
          "0 < d \<Longrightarrow> elapsed es < due \<and> debounced s = last (v0 # held_values d t B)"
        with that show ?thesis by (simp add: held_values_snoc)
      qed
    qed
  qed
  show ?thesis
  proof (rule debounce_inv_SomeI [where B = ?A and t = ?now])
    show "clock (debounce_step d s e) = elapsed (es @ [e])" using c' n' by simp
    show "timer (debounce_step d s e) = Some (w, ?now + d)" by (rule t')
    show "arrivals 0 (es @ [e]) = ?A @ [(?now, w)]" by (rule A')
    show "?now + d = ?now + d" by simp
    show "?now \<le> elapsed (es @ [e])" using n' by simp
    show "debounced (debounce_step d s e) \<in> set (v0 # held_values d ?now ?A)"
      using m d' by simp
    show "elapsed (es @ [e]) < ?now + d \<and>
        debounced (debounce_step d s e) = last (v0 # held_values d ?now ?A)" if "0 < d"
      using that l d' n' by simp
  qed
next
  case (Elapse dt)
  let ?A = "arrivals 0 es" and ?now = "elapsed es"
  have c: "clock s = ?now" using inv by (simp add: debounce_inv_def)
  have A': "arrivals 0 (es @ [e]) = ?A" and n': "elapsed (es @ [e]) = ?now + dt"
    using Elapse by (simp_all add: arrivals_snoc elapsed_snoc)
  show ?thesis
  proof (cases "timer s")
    case None
    have s': "debounce_step d s e = s\<lparr>clock := ?now + dt\<rparr>"
      using Elapse None c by simp
    show ?thesis
    proof (rule debounce_inv_NoneI)
      show "clock (debounce_step d s e) = elapsed (es @ [e])" using s' n' by simp
      show "timer (debounce_step d s e) = None" using s' None by simp
      show "fst (last (arrivals 0 (es @ [e]))) + d \<le> elapsed (es @ [e])"
        if "arrivals 0 (es @ [e]) \<noteq> []"
        using that debounce_inv_NoneD(3) [OF inv None] A' n' by simp
      show "debounced (debounce_step d s e) =
          last (v0 # held_values d (elapsed (es @ [e])) (arrivals 0 (es @ [e])))"
      proof (cases "?A = []")
        case True
        with debounce_inv_NoneD(2) [OF inv None] s' A' show ?thesis by simp
      next
        case False
        from held_values_later [OF False debounce_inv_NoneD(3) [OF inv None False], of "?now + dt"]
        have "held_values d (?now + dt) ?A = held_values d ?now ?A" by simp
        with debounce_inv_NoneD(2) [OF inv None] s' A' n' show ?thesis by simp
      qed
    qed
  next
    case (Some p)
    obtain v due where p: "timer s = Some (v, due)" using Some by (cases p) simp
    from inv p show ?thesis
    proof (rule debounce_inv_SomeE)
      fix B t
      assume B: "arrivals 0 es = B @ [(t, v)]" and due: "due = t + d" and t: "t \<le> elapsed es"
        and m: "debounced s \<in> set (v0 # held_values d t B)"
        and l: "0 < d \<Longrightarrow> elapsed es < due \<and> debounced s = last (v0 # held_values d t B)"
      show ?thesis
      proof (cases "due \<le> ?now + dt")
        case True
        have s': "debounce_step d s e = s\<lparr>debounced := v, timer := None, clock := ?now + dt\<rparr>"
          using Elapse p c True by simp
        show ?thesis
        proof (rule debounce_inv_NoneI)
          show "clock (debounce_step d s e) = elapsed (es @ [e])" using s' n' by simp
          show "timer (debounce_step d s e) = None" using s' by simp
          show "fst (last (arrivals 0 (es @ [e]))) + d \<le> elapsed (es @ [e])"
            using A' B due True n' by simp
          show "debounced (debounce_step d s e) =
              last (v0 # held_values d (elapsed (es @ [e])) (arrivals 0 (es @ [e])))"
            using s' A' B due True n' by (simp add: held_values_snoc)
        qed
      next
        case False
        with due t have pos: "0 < d" by (cases d) auto
        have s': "debounce_step d s e = s\<lparr>clock := ?now + dt\<rparr>"
          using Elapse p c False by simp
        show ?thesis
        proof (rule debounce_inv_SomeI [where B = B and t = t])
          show "clock (debounce_step d s e) = elapsed (es @ [e])" using s' n' by simp
          show "timer (debounce_step d s e) = Some (v, due)" using s' p by simp
          show "arrivals 0 (es @ [e]) = B @ [(t, v)]" using A' B by simp
          show "due = t + d" by (rule due)
          show "t \<le> elapsed (es @ [e])" using t n' by simp
          show "debounced (debounce_step d s e) \<in> set (v0 # held_values d t B)"
            using s' m by simp
          show "elapsed (es @ [e]) < due \<and>
              debounced (debounce_step d s e) = last (v0 # held_values d t B)" if "0 < d"
            using l [OF that] False n' s' by simp
        qed
      qed
    qed
  qed
qed

lemma debounce_inv_run: "debounce_inv d v0 es (debounce_run d (useDebounce v0) es)"
proof (induction es rule: rev_induct)
  case Nil
  show ?case by (simp add: debounce_inv_def debounce_run_def useDebounce_def)
next
  case (snoc e es)
  then show ?case by (simp add: debounce_run_snoc debounce_inv_step)
qed

lemma settled_timer:
  assumes "settled es" and "d = 0"
  shows "timer (debounce_run d (useDebounce v0) es) = None"
proof (cases es rule: rev_cases)
  case Nil
  then show ?thesis by (simp add: debounce_run_def useDebounce_def)
next
  case (snoc es' e)
  with assms obtain dt where e: "e = Elapse dt" by (cases e) (auto simp: settled_def)
  have inv: "debounce_inv d v0 es' (debounce_run d (useDebounce v0) es')"
    by (rule debounce_inv_run)
  with assms(2) show ?thesis
    unfolding snoc e debounce_run_snoc
    by (auto simp: debounce_inv_def split: option.splits)
qed

text \<open>
  Claim C2, as the specification of the hook has it. For every delay \<open>d\<close> and every
  history, the debounced output is the first value or an input that remained unchanged for
  at least \<open>d\<close> ms, so never an input that was superseded within the delay; when \<open>d\<close>
  is positive, or when no input has arrived since the last scheduling tick, it is the most
  recent such input; and the first debounced value is the first input.
\<close>

theorem debounced_is_last_held_value:
  "debounced (debounce_run d (useDebounce v0) es)
     \<in> set (v0 # held_values d (elapsed es) (arrivals 0 es))
   \<and> (0 < d \<or> settled es \<longrightarrow>
        debounced (debounce_run d (useDebounce v0) es) = debounce_spec d v0 es)
   \<and> debounced (useDebounce v0) = v0"
proof -
  let ?s = "debounce_run d (useDebounce v0) es"
  have inv: "debounce_inv d v0 es ?s" by (rule debounce_inv_run)
  have mem: "debounced ?s \<in> set (v0 # held_values d (elapsed es) (arrivals 0 es))"
  proof (cases "timer ?s")
    case None
    with inv have "debounced ?s = last (v0 # held_values d (elapsed es) (arrivals 0 es))"
      by (simp add: debounce_inv_def)
    then show ?thesis using last_in_set [of "v0 # held_values d (elapsed es) (arrivals 0 es)"]
      by simp
  next
    case (Some p)
    with inv show ?thesis
      by (cases p) (auto simp: debounce_inv_def held_values_snoc)
  qed
  have eq: "0 < d \<or> settled es \<longrightarrow> debounced ?s = debounce_spec d v0 es"
  proof
    assume h: "0 < d \<or> settled es"
    show "debounced ?s = debounce_spec d v0 es"
    proof (cases "timer ?s")
      case None
      with inv show ?thesis by (simp add: debounce_inv_def debounce_spec_def)
    next
      case (Some p)
      with h settled_timer [of es d v0] have "0 < d" by (cases d) auto
      with Some inv show ?thesis
        by (cases p) (auto simp: debounce_inv_def debounce_spec_def held_values_snoc)
    qed
  qed
  from mem eq show ?thesis by (simp add: useDebounce_def)
qed


lemmas debounce_evals = debounce_run_def useDebounce_def debounce_spec_def settled_def

text \<open>
  The scenario of the test \<^verbatim>\<open>cancels previous timeout when value changes rapidly\<close>, with
  a delay of 500 ms, and that of the test \<^verbatim>\<open>handles zero delay\<close> after its timers have
  run.
\<close>

theorem debounced_is_last_held_value_witness:
  "(0 < (500::nat) \<or> settled [NewValue ''first-update'', Elapse 300, NewValue ''second-update'',
        Elapse 200, Elapse 300])
   \<and> debounced (debounce_run 500 (useDebounce ''initial'')
        [NewValue ''first-update'', Elapse 300, NewValue ''second-update'', Elapse 200, Elapse 300])
      = debounce_spec 500 ''initial''
        [NewValue ''first-update'', Elapse 300, NewValue ''second-update'', Elapse 200, Elapse 300]
   \<and> debounce_spec 500 ''initial''
        [NewValue ''first-update'', Elapse 300, NewValue ''second-update'', Elapse 200, Elapse 300]
      = ''second-update''
   \<and> debounced (debounce_run 500 (useDebounce ''initial'')
        [NewValue ''first-update'', Elapse 300, NewValue ''second-update'', Elapse 200])
      = ''initial''
   \<and> settled [NewValue ''updated'', Elapse 0]
   \<and> debounced (debounce_run 0 (useDebounce ''initial'') [NewValue ''updated'', Elapse 0])
      = debounce_spec 0 ''initial'' [NewValue ''updated'', Elapse 0]
   \<and> debounce_spec 0 ''initial'' [NewValue ''updated'', Elapse 0] = ''updated''"
  using debounced_is_last_held_value [of 500 "''initial''"
      "[NewValue ''first-update'', Elapse 300, NewValue ''second-update'', Elapse 200, Elapse 300]"]
    debounced_is_last_held_value [of 0 "''initial''" "[NewValue ''updated'', Elapse 0]"]
  by (simp add: debounce_evals)

text \<open>
  Claim C2 as it is written fails for the delay 0: right after the input \<^verbatim>\<open>updated\<close>,
  that input has been unchanged for 0 ms, and the output is still \<^verbatim>\<open>initial\<close>, as the
  test \<^verbatim>\<open>handles zero delay\<close> expects before it runs the timers.
\<close>

theorem zero_delay_is_not_synchronous:
  "debounced (debounce_run 0 (useDebounce ''initial'') [NewValue ''updated'']) = ''initial''
   \<and> debounce_spec 0 ''initial'' [NewValue ''updated''] = ''updated''"
  by (simp add: debounce_evals)

end
